theory Spec2Isabelle
  imports Complex_Main "HOL-Library.Word" "HOL-Library.Signed_Division"
    "HOL-Library.Code_Target_Numeral"
begin

section \<open>Machine types and configuration (videoSDK.ino, lines 18-30)\<close>

text \<open>
  The sketch runs on an ESP32: \<open>int\<close> and \<open>long\<close> are 32-bit two's complement,
  \<open>unsigned long\<close> is 32 bits, \<open>int16_t\<close> is 16 bits. Signed values are read with
  \<open>sint\<close>, signed comparison is \<open><s\<close>, and arithmetic on words wraps. Overflow
  of a signed \<open>int\<close> has no defined result in C++; the model takes the two's complement
  result. With readings and offsets of a 12-bit converter no \<open>int\<close> overflows: the
  differences stay within 4096 in absolute value and the scaled samples within 32768.
\<close>

type_synonym int32 = "32 word"
type_synonym uint32 = "32 word"
type_synonym int16 = "16 word"

definition SAMPLE_RATE :: nat where
  "SAMPLE_RATE = 8000"

definition RECORD_DURATION_SECONDS :: nat where
  "RECORD_DURATION_SECONDS = 3"

definition AMPLITUDE_THRESHOLD :: int32 where
  "AMPLITUDE_THRESHOLD = 500"

definition GAIN_FACTOR :: int32 where
  "GAIN_FACTOR = 8"

definition TOTAL_SAMPLES :: nat where
  "TOTAL_SAMPLES = SAMPLE_RATE * RECORD_DURATION_SECONDS"

text \<open>C's \<open>round\<close>: to the nearest integer, halfway cases away from zero.\<close>

definition c_round :: "real \<Rightarrow> int" where
  "c_round x = (if 0 \<le> x then \<lfloor>x + 1 / 2\<rfloor> else \<lceil>x - 1 / 2\<rceil>)"

text \<open>
  \<open>const int SAMPLING_PERIOD_US = round(1000000.0 / SAMPLE_RATE)\<close>. The quotient
  \<open>1000000.0 / 8000\<close> is exact in binary floating point, so the real quotient is
  the value the code rounds.
\<close>

definition SAMPLING_PERIOD_US :: int32 where
  "SAMPLING_PERIOD_US = word_of_int (c_round (1000000 / real SAMPLE_RATE))"

text \<open>C's \<open>/\<close> on signed integers truncates towards zero.\<close>

definition word_sdiv :: "int32 \<Rightarrow> int32 \<Rightarrow> int32" where
  "word_sdiv a b = word_of_int (sint a sdiv sint b)"

text \<open>\<open>abs\<close> on \<open>int\<close>; the negation wraps at the most negative value.\<close>

definition abs_int :: "int32 \<Rightarrow> int32" where
  "abs_int x = (if x <s 0 then - x else x)"

section \<open>Environment, events and state\<close>

text \<open>
  What the hardware and the libraries answer is an input of the model: the value of the
  k-th analog conversion, whether the k-th \<open>malloc\<close> succeeds and what the fresh block
  holds, and whether the k-th \<open>SPIFFS.open\<close> for writing succeeds.
\<close>

record env =
  adc_raw :: "nat \<Rightarrow> int32"
  malloc_ok :: "nat \<Rightarrow> bool"
  heap_junk :: "nat \<Rightarrow> int16"
  open_ok :: "nat \<Rightarrow> bool"

text \<open>The three places that call \<open>adc1_get_raw\<close>: lines 142, 89 and 200.\<close>

datatype site = Calibrate | Trigger | Capture

text \<open>
  The observable actions of the sketch, in program order. \<open>Enter\<close> and \<open>Return\<close>
  bracket one call of \<open>recordAndAlert\<close>; \<open>Deadline d\<close> is the start of the busy-wait
  for the deadline \<open>d\<close>; \<open>Flag b\<close> is an assignment to \<open>isRecording\<close>;
  \<open>Housekeeping\<close> stands for the MQTT and web-server calls that open \<open>loop()\<close>.
\<close>

datatype event =
    Housekeeping
  | AdcRead site int32
  | Delay nat
  | Flag bool
  | Enter int32
  | Return
  | Malloc bool
  | Deadline uint32
  | FileOpen bool
  | FileWrite "int16 list"
  | FileClose
  | Free
  | Publish int32

text \<open>
  The globals \<open>isRecording\<close> and \<open>adc_dc_offset\<close>, the elapsed time in microseconds,
  the number of calls made so far to each environment function, and the actions so far.
\<close>

record state =
  isRecording :: bool
  adc_dc_offset :: int32
  now_us :: nat
  n_adc :: nat
  n_malloc :: nat
  n_open :: nat
  trace :: "event list"

section \<open>Primitive operations\<close>

definition emit :: "event \<Rightarrow> state \<Rightarrow> state" where
  "emit ev s = s\<lparr>trace := trace s @ [ev]\<rparr>"

text \<open>\<open>delay(ms)\<close> blocks for \<open>ms\<close> milliseconds.\<close>

definition delay :: "nat \<Rightarrow> state \<Rightarrow> state" where
  "delay ms s = emit (Delay ms) (s\<lparr>now_us := now_us s + 1000 * ms\<rparr>)"

text \<open>
  \<open>micros()\<close> returns the elapsed microseconds truncated to 32 bits. One poll is
  taken to last one tick of the clock, so a spinning reader sees every clock value.
\<close>

definition micros :: "state \<Rightarrow> uint32 \<times> state" where
  "micros s = (word_of_nat (now_us s), s\<lparr>now_us := now_us s + 1\<rparr>)"

definition adc1_get_raw :: "env \<Rightarrow> site \<Rightarrow> state \<Rightarrow> int32 \<times> state" where
  "adc1_get_raw e c s =
     (let v = adc_raw e (n_adc s)
      in (v, emit (AdcRead c v) (s\<lparr>n_adc := n_adc s + 1\<rparr>)))"

definition set_isRecording :: "bool \<Rightarrow> state \<Rightarrow> state" where
  "set_isRecording b s = emit (Flag b) (s\<lparr>isRecording := b\<rparr>)"

text \<open>
  \<open>malloc(TOTAL_SAMPLES * sizeof(int16_t))\<close>: \<open>None\<close> is the null pointer, otherwise a
  block of \<open>TOTAL_SAMPLES\<close> cells of indeterminate content.
\<close>

definition malloc_buffer :: "env \<Rightarrow> state \<Rightarrow> int16 list option \<times> state" where
  "malloc_buffer e s =
     (let ok = malloc_ok e (n_malloc s);
          s1 = emit (Malloc ok) (s\<lparr>n_malloc := n_malloc s + 1\<rparr>)
      in (if ok then Some (map (heap_junk e) [0..<TOTAL_SAMPLES]) else None, s1))"

definition spiffs_open_w :: "env \<Rightarrow> state \<Rightarrow> bool \<times> state" where
  "spiffs_open_w e s =
     (let ok = open_ok e (n_open s)
      in (ok, emit (FileOpen ok) (s\<lparr>n_open := n_open s + 1\<rparr>)))"

section \<open>calibrateDCOffset (lines 138-147)\<close>

function calibrate_loop :: "env \<Rightarrow> nat \<Rightarrow> int32 \<Rightarrow> state \<Rightarrow> int32 \<times> state" where
  "calibrate_loop e i sum_acc s =
     (if i < 1024 then
        (case adc1_get_raw e Calibrate s of
           (v, s1) \<Rightarrow> calibrate_loop e (i + 1) (sum_acc + v) (delay 1 s1))
      else (sum_acc, s))"
  by pat_completeness auto
termination
  by (relation "measure (\<lambda>(e, i, sum_acc, s). 1024 - i)") auto

declare calibrate_loop.simps [simp del]

definition calibrateDCOffset :: "env \<Rightarrow> state \<Rightarrow> state" where
  "calibrateDCOffset e s =
     (case calibrate_loop e 0 0 s of
        (sum_acc, s1) \<Rightarrow> s1\<lparr>adc_dc_offset := word_sdiv sum_acc 1024\<rparr>)"

section \<open>recordAndAlert (lines 179-220)\<close>

text \<open>\<open>while (micros() < nextSampleTime);\<close>\<close>

function spin_wait :: "uint32 \<Rightarrow> state \<Rightarrow> state" where
  "spin_wait deadline s =
     (case micros s of
        (t, s1) \<Rightarrow> if t < deadline then spin_wait deadline s1 else s1)"
  by pat_completeness auto
termination
proof (relation "measure (\<lambda>(deadline, s). unat deadline - now_us s mod 2 ^ 32)")
  show "wf (measure (\<lambda>(deadline, s). unat deadline - now_us s mod 2 ^ 32))"
    by simp
next
  fix deadline :: uint32 and s :: state and t :: uint32 and s1 :: state
  assume m: "(t, s1) = micros s" and lt: "t < deadline"
  from m have t: "unat t = now_us s mod 2 ^ 32" and s1: "now_us s1 = Suc (now_us s)"
    by (simp_all add: micros_def unat_of_nat)
  from lt t have below: "now_us s mod 2 ^ 32 < unat deadline"
    by (simp add: word_less_nat_alt)
  have "unat deadline < 2 ^ 32"
    using unsigned_less [of deadline, where ?'a = nat] by simp
  with below have "Suc (now_us s mod 2 ^ 32) \<noteq> 2 ^ 32"
    by linarith
  then have "Suc (now_us s) mod 2 ^ 32 = Suc (now_us s mod 2 ^ 32)"
    by (simp add: mod_Suc)
  with below s1 show "((deadline, s1), (deadline, s)) \<in>
      measure (\<lambda>(deadline, s). unat deadline - now_us s mod 2 ^ 32)"
    by simp
qed

declare spin_wait.simps [simp del]

text \<open>
  The right-hand side of line 201, \<open>(raw - adc_dc_offset) * GAIN_FACTOR\<close>, computed
  in \<open>int\<close> and converted to \<open>int16_t\<close> by the assignment to \<open>buffer[i]\<close>.
\<close>

definition scaled_sample :: "int32 \<Rightarrow> int32 \<Rightarrow> int16" where
  "scaled_sample raw offset = scast ((raw - offset) * GAIN_FACTOR)"

text \<open>The sampling loop, lines 197-202.\<close>

function capture_loop ::
  "env \<Rightarrow> nat \<Rightarrow> uint32 \<Rightarrow> int16 list \<Rightarrow> state \<Rightarrow> int16 list \<times> state" where
  "capture_loop e i nextSampleTime buffer s =
     (if i < TOTAL_SAMPLES then
        (case adc1_get_raw e Capture
                (spin_wait nextSampleTime (emit (Deadline nextSampleTime) s)) of
           (raw, s1) \<Rightarrow>
             capture_loop e (i + 1) (nextSampleTime + SAMPLING_PERIOD_US)
               (buffer[i := scaled_sample raw (adc_dc_offset s1)]) s1)
      else (buffer, s))"
  by pat_completeness auto
termination
  by (relation "measure (\<lambda>(e, i, t, buffer, s). TOTAL_SAMPLES - i)") auto

declare capture_loop.simps [simp del]

text \<open>
  Lines 188-202: the allocation, the first reading of the clock and the sampling loop.
  The result is \<open>None\<close> when the allocation failed, otherwise the filled buffer.
\<close>

definition capture :: "env \<Rightarrow> state \<Rightarrow> int16 list option \<times> state" where
  "capture e s =
     (case malloc_buffer e s of
        (None, s1) \<Rightarrow> (None, s1)
      | (Some junk, s1) \<Rightarrow>
          (case micros s1 of
             (nextSampleTime, s2) \<Rightarrow>
               (case capture_loop e 0 nextSampleTime junk s2 of
                  (buffer, s3) \<Rightarrow> (Some buffer, s3))))"

text \<open>
  The file name (from the wall clock) and the serial log are not modelled; the alert
  event carries the integer \<open>triggerAmplitude\<close> from which the published value is
  computed.
\<close>

definition recordAndAlert :: "env \<Rightarrow> int32 \<Rightarrow> state \<Rightarrow> state" where
  "recordAndAlert e triggerAmplitude s =
     (case capture e (emit (Enter triggerAmplitude) s) of
        (None, s1) \<Rightarrow> emit Return s1
      | (Some buffer, s1) \<Rightarrow>
          (case spiffs_open_w e s1 of
             (False, s2) \<Rightarrow> emit Return (emit Free s2)
           | (True, s2) \<Rightarrow>
               emit Return
                 (emit (Publish triggerAmplitude)
                   (emit Free (emit FileClose (emit (FileWrite buffer) s2))))))"

section \<open>loop (lines 81-101)\<close>

definition loop :: "env \<Rightarrow> state \<Rightarrow> state" where
  "loop e s =
     (let s1 = emit Housekeeping s
      in delay 1
           (if \<not> isRecording s1 then
              (case adc1_get_raw e Trigger s1 of
                 (adc_value, s2) \<Rightarrow>
                   (let amplitude = abs_int (adc_value - adc_dc_offset s2)
                    in if AMPLITUDE_THRESHOLD <s amplitude then
                         delay 2000
                           (set_isRecording False
                             (recordAndAlert e amplitude (set_isRecording True s2)))
                       else s2))
            else s1))"

section \<open>Reading a trace\<close>

text \<open>The actions a computation from \<open>s\<close> to \<open>s'\<close> has added.\<close>

definition events_since :: "state \<Rightarrow> state \<Rightarrow> event list" where
  "events_since s s' = drop (length (trace s)) (trace s')"

fun deadlines :: "event list \<Rightarrow> uint32 list" where
  "deadlines [] = []"
| "deadlines (Deadline d # es) = d # deadlines es"
| "deadlines (ev # es) = deadlines es"

fun capture_reads :: "event list \<Rightarrow> int32 list" where
  "capture_reads [] = []"
| "capture_reads (AdcRead Capture v # es) = v # capture_reads es"
| "capture_reads (ev # es) = capture_reads es"

text \<open>The readings that the next calibration will consume.\<close>

definition calibration_samples :: "env \<Rightarrow> state \<Rightarrow> int32 list" where
  "calibration_samples e s = map (\<lambda>k. adc_raw e (n_adc s + k)) [0..<1024]"

text \<open>The amplitudes with which \<open>recordAndAlert\<close> was entered.\<close>

fun entered :: "event list \<Rightarrow> int32 list" where
  "entered [] = []"
| "entered (Enter a # es) = a # entered es"
| "entered (ev # es) = entered es"

text \<open>
  The actions of \<open>m\<close> iterations of the sampling loop that starts with the deadline
  \<open>t\<close> when \<open>n0\<close> conversions have been made: a busy-wait and one conversion each.
\<close>

definition capture_events :: "env \<Rightarrow> uint32 \<Rightarrow> nat \<Rightarrow> nat \<Rightarrow> event list" where
  "capture_events e t n0 m =
     concat (map (\<lambda>k. [Deadline (t + of_nat k * SAMPLING_PERIOD_US),
                         AdcRead Capture (adc_raw e (n0 + k))]) [0..<m])"

text \<open>The buffer a capture started in \<open>s\<close> fills: one scaled reading per cell.\<close>

definition captured :: "env \<Rightarrow> state \<Rightarrow> int16 list" where
  "captured e s =
     map (\<lambda>k. scaled_sample (adc_raw e (n_adc s + k)) (adc_dc_offset s)) [0..<TOTAL_SAMPLES]"

text \<open>The actions of lines 204-217, after the sampling loop.\<close>

definition handoff_events :: "bool \<Rightarrow> int16 list \<Rightarrow> int32 \<Rightarrow> event list" where
  "handoff_events opened buffer a =
     FileOpen opened #
       (if opened then [FileWrite buffer, FileClose, Free, Publish a, Return]
        else [Free, Return])"

text \<open>The actions of one call \<open>recordAndAlert(a)\<close> made in state \<open>s\<close>.\<close>

definition record_events :: "env \<Rightarrow> int32 \<Rightarrow> state \<Rightarrow> event list" where
  "record_events e a s =
     Enter a # Malloc (malloc_ok e (n_malloc s)) #
       (if malloc_ok e (n_malloc s) then
          capture_events e (word_of_nat (now_us s)) (n_adc s) TOTAL_SAMPLES @
          handoff_events (open_ok e (n_open s)) (captured e s) a
        else [Return])"

text \<open>The amplitude that \<open>loop()\<close> computes from the next reading (lines 89-90).\<close>

definition amplitude_of :: "env \<Rightarrow> state \<Rightarrow> int32" where
  "amplitude_of e s = abs_int (adc_raw e (n_adc s) - adc_dc_offset s)"

text \<open>The actions of one iteration of \<open>loop()\<close> started in state \<open>s\<close>.\<close>

definition loop_events :: "env \<Rightarrow> state \<Rightarrow> event list" where
  "loop_events e s =
     Housekeeping #
       (if isRecording s then [Delay 1]
        else AdcRead Trigger (adc_raw e (n_adc s)) #
          (if AMPLITUDE_THRESHOLD <s amplitude_of e s then
             Flag True #
               record_events e (amplitude_of e s) (s\<lparr>n_adc := n_adc s + 1\<rparr>) @
               [Flag False, Delay 2000, Delay 1]
           else [Delay 1]))"

text \<open>
  The state in which \<open>recordAndAlert\<close> returns to \<open>loop()\<close> (line 94), when the
  iteration started in \<open>s\<close> triggers.
\<close>

definition after_record :: "env \<Rightarrow> state \<Rightarrow> state" where
  "after_record e s =
     recordAndAlert e (amplitude_of e s)
       (set_isRecording True (snd (adc1_get_raw e Trigger (emit Housekeeping s))))"

text \<open>
  The state in which \<open>loop()\<close> calls \<open>recordAndAlert\<close> (line 94), right after the
  assignment of line 93, when the iteration started in \<open>s\<close> triggers.
\<close>

definition before_record :: "env \<Rightarrow> state \<Rightarrow> state" where
  "before_record e s =
     set_isRecording True (snd (adc1_get_raw e Trigger (emit Housekeeping s)))"

subsection \<open>The two readings of the calibration result\<close>

text \<open>The mean with the quotient truncated, as integer division computes it.\<close>

definition truncated_mean :: "int32 list \<Rightarrow> int" where
  "truncated_mean xs = sum_list (map sint xs) div int (length xs)"

text \<open>The mean rounded to the nearest integer, as the specification words it.\<close>

definition rounded_mean :: "int32 list \<Rightarrow> int" where
  "rounded_mean xs = round (real_of_int (sum_list (map sint xs)) / real (length xs))"

subsection \<open>The single-capture discipline as an automaton\<close>

text \<open>
  \<open>Armed\<close>: the flag is clear. \<open>Locked\<close>: the flag is set and \<open>recordAndAlert\<close> is
  not running. \<open>InCall\<close>: \<open>recordAndAlert\<close> is running and holds no buffer.
  \<open>Filling\<close>: \<open>recordAndAlert\<close> is running and holds its buffer.
\<close>

datatype phase = Armed | Locked | InCall | Filling

text \<open>
  An action is refused (\<open>None\<close>) when it breaks the discipline: the flag is set only when
  clear and cleared only outside \<open>recordAndAlert\<close>; \<open>recordAndAlert\<close> is entered only
  with the flag set and not while it runs; a buffer is allocated only when none is held,
  and is sampled into, written out and freed only while held; \<open>recordAndAlert\<close> returns
  only with no buffer held; the trigger reads the converter only when the flag is clear.
\<close>

definition monitor_step :: "phase \<Rightarrow> event \<Rightarrow> phase option" where
  "monitor_step p ev =
     (case ev of
        Flag b \<Rightarrow>
          if b then (if p = Armed then Some Locked else None)
          else (if p = Locked then Some Armed else None)
      | Enter a \<Rightarrow> if p = Locked then Some InCall else None
      | Malloc ok \<Rightarrow> if p = InCall then Some (if ok then Filling else InCall) else None
      | Free \<Rightarrow> if p = Filling then Some InCall else None
      | Return \<Rightarrow> if p = InCall then Some Locked else None
      | AdcRead c v \<Rightarrow>
          (case c of
             Calibrate \<Rightarrow> Some p
           | Trigger \<Rightarrow> if p = Armed then Some p else None
           | Capture \<Rightarrow> if p = Filling then Some p else None)
      | Deadline d \<Rightarrow> if p = Filling then Some p else None
      | FileWrite buffer \<Rightarrow> if p = Filling then Some p else None
      | _ \<Rightarrow> Some p)"

fun monitor :: "phase \<Rightarrow> event list \<Rightarrow> phase option" where
  "monitor p [] = Some p"
| "monitor p (ev # es) =
     (case monitor_step p ev of None \<Rightarrow> None | Some p' \<Rightarrow> monitor p' es)"

subsection \<open>Concrete inputs\<close>

text \<open>
  An environment whose converter always reads \<open>v\<close>, whose allocations all succeed or
  all fail, and whose files all open or all fail to open.
\<close>

definition env_fixed :: "int32 \<Rightarrow> bool \<Rightarrow> bool \<Rightarrow> env" where
  "env_fixed v m f =
     \<lparr>adc_raw = (\<lambda>k. v), malloc_ok = (\<lambda>k. m), heap_junk = (\<lambda>k. 0), open_ok = (\<lambda>k. f)\<rparr>"

text \<open>A converter that reads 2048 once and 2049 ever after.\<close>

definition env_step :: env where
  "env_step =
     \<lparr>adc_raw = (\<lambda>k. if k = 0 then 2048 else 2049), malloc_ok = (\<lambda>k. True),
       heap_junk = (\<lambda>k. 0), open_ok = (\<lambda>k. True)\<rparr>"

text \<open>The globals as initialised (lines 26 and 30), before anything has run.\<close>

definition state_boot :: state where
  "state_boot =
     \<lparr>isRecording = False, adc_dc_offset = 0, now_us = 0, n_adc = 0, n_malloc = 0,
       n_open = 0, trace = []\<rparr>"

text \<open>An armed state after a calibration that found the offset 2048.\<close>

definition state_armed :: state where
  "state_armed =
     \<lparr>isRecording = False, adc_dc_offset = 2048, now_us = 3024000, n_adc = 1024,
       n_malloc = 0, n_open = 0, trace = []\<rparr>"

section \<open>The constants\<close>

lemma TOTAL_SAMPLES_eq: "TOTAL_SAMPLES = 24000"
  by (simp add: TOTAL_SAMPLES_def SAMPLE_RATE_def RECORD_DURATION_SECONDS_def)

lemma SAMPLING_PERIOD_US_eq: "SAMPLING_PERIOD_US = 125"
  by (simp add: SAMPLING_PERIOD_US_def c_round_def SAMPLE_RATE_def)

section \<open>Calibration\<close>

lemma calibrate_loop_sum:
  "i \<le> 1024 \<Longrightarrow> fst (calibrate_loop e i acc s) =
     acc + sum_list (map (\<lambda>k. adc_raw e (n_adc s + k)) [0..<1024 - i])"
proof (induction e i acc s rule: calibrate_loop.induct)
  case (1 e i acc s)
  show ?case
  proof (cases "i < 1024")
    case True
    then have up: "[0..<1024 - i] = 0 # map Suc [0..<1024 - (i + 1)]"
      by (metis Suc_diff_Suc Suc_eq_plus1 map_Suc_upt upt_conv_Cons zero_less_diff)
    from True have "fst (calibrate_loop e i acc s) =
        fst (calibrate_loop e (i + 1) (acc + adc_raw e (n_adc s))
          (delay 1 (snd (adc1_get_raw e Calibrate s))))"
      by (subst calibrate_loop.simps) (simp add: adc1_get_raw_def Let_def)
    also from True have "\<dots> = acc + adc_raw e (n_adc s) +
        sum_list (map (\<lambda>k. adc_raw e (n_adc (delay 1 (snd (adc1_get_raw e Calibrate s))) + k))
          [0..<1024 - (i + 1)])"
      by (intro "1.IH" [OF True]) (simp_all add: adc1_get_raw_def Let_def)
    finally show ?thesis
      by (simp add: up emit_def delay_def adc1_get_raw_def Let_def comp_def add.assoc)
  next
    case False
    with "1.prems" show ?thesis
      by (subst calibrate_loop.simps) simp
  qed
qed

lemma calibrate_offset:
  "adc_dc_offset (calibrateDCOffset e s) = word_sdiv (sum_list (calibration_samples e s)) 1024"
  using calibrate_loop_sum [of 0 e 0 s]
  by (cases "calibrate_loop e 0 0 s") (simp add: calibrateDCOffset_def calibration_samples_def)

lemma length_calibration_samples: "length (calibration_samples e s) = 1024"
  by (simp add: calibration_samples_def)

text \<open>Sums of at most 1024 twelve-bit readings do not overflow 32 bits.\<close>

lemma sint_sum_list_adc:
  "\<forall>x \<in> set xs. 0 \<le> sint x \<and> sint x \<le> 4095 \<Longrightarrow> length xs \<le> 1024 \<Longrightarrow>
     sint (sum_list xs :: int32) = sum_list (map sint xs) \<and> 0 \<le> sum_list (map sint xs)
     \<and> sum_list (map sint xs) \<le> 4095 * int (length xs)"
proof (induction xs)
  case Nil
  then show ?case by simp
next
  case (Cons x xs)
  then have ih: "sint (sum_list xs) = sum_list (map sint xs)" "0 \<le> sum_list (map sint xs)"
      "sum_list (map sint xs) \<le> 4095 * int (length xs)"
    and x: "0 \<le> sint x" "sint x \<le> 4095" and len: "length xs < 1024"
    by simp_all
  have "sint (x + sum_list xs) = signed_take_bit 31 (sint x + sint (sum_list xs))"
    by (simp add: sint_word_ariths)
  also have "\<dots> = sint x + sint (sum_list xs)"
    using ih x len by (intro signed_take_bit_int_eq_self) simp_all
  finally show ?case using ih x by simp
qed

lemma samples_env_step:
  "calibration_samples env_step state_boot = 2048 # replicate 1023 2049"
proof -
  have "map (\<lambda>k. if k = 0 then 2048 else (2049 :: int32)) [Suc 0..<1024]
      = map (\<lambda>k. 2049) [Suc 0..<1024]"
    by (rule map_cong) simp_all
  also have "\<dots> = replicate 1023 2049"
    by (simp add: map_replicate_const)
  finally show ?thesis
    by (simp add: calibration_samples_def env_step_def state_boot_def upt_conv_Cons [of 0]
        del: upt_Suc)
qed

text \<open>
  C5, as stated: for every sequence of 1024 calibration samples the offset is the mean
  rounded to the nearest integer. It fails for the readings 2048, 2049, 2049, ...: their
  mean is 2048.999..., which rounds to 2049, and the code stores 2048.
\<close>

theorem calibrate_rounded_mean_counterexample:
  "sint (adc_dc_offset (calibrateDCOffset env_step state_boot)) = 2048
   \<and> rounded_mean (calibration_samples env_step state_boot) = 2049
   \<and> sint (adc_dc_offset (calibrateDCOffset env_step state_boot))
       \<noteq> rounded_mean (calibration_samples env_step state_boot)"
proof -
  have "sint (adc_dc_offset (calibrateDCOffset env_step state_boot)) = 2048"
    by (simp add: calibrate_offset samples_env_step word_sdiv_def signed_divide_int_def
        sum_list_replicate)
  moreover have "rounded_mean (calibration_samples env_step state_boot) = 2049"
    by (simp add: rounded_mean_def samples_env_step sum_list_replicate round_def)
  ultimately show ?thesis by simp
qed

text \<open>
  C5, amended: for every sequence of 1024 calibration samples in the converter's range
  0..4095, \<open>calibrateDCOffset\<close> stores the mean of the samples with the quotient truncated
  (the sum divided by 1024 in integer arithmetic), not rounded.
\<close>

theorem calibrate_truncated_mean:
  assumes "\<forall>x \<in> set (calibration_samples e s). 0 \<le> sint x \<and> sint x \<le> 4095"
  shows "sint (adc_dc_offset (calibrateDCOffset e s)) = truncated_mean (calibration_samples e s)"
proof -
  let ?xs = "calibration_samples e s"
  let ?S = "sum_list (map sint ?xs)"
  have len: "length ?xs = 1024" by (rule length_calibration_samples)
  from sint_sum_list_adc [OF assms] len
  have s: "sint (sum_list ?xs) = ?S" and lo: "0 \<le> ?S" and hi: "?S \<le> 4095 * 1024"
    by simp_all
  have q: "?S sdiv 1024 = ?S div 1024"
    using lo by (simp add: signed_divide_int_def sgn_if)
  have "0 \<le> ?S div 1024" "?S div 1024 \<le> 4095"
    using lo hi by simp_all
  then have "signed_take_bit 31 (?S div 1024) = ?S div 1024"
    by (intro signed_take_bit_int_eq_self) simp_all
  then show ?thesis
    by (simp add: calibrate_offset word_sdiv_def s q truncated_mean_def len sint_sbintrunc')
qed

theorem calibrate_truncated_mean_witness:
  "calibration_samples env_step state_boot = 2048 # replicate 1023 2049
   \<and> truncated_mean (calibration_samples env_step state_boot) = 2048
   \<and> sint (adc_dc_offset (calibrateDCOffset env_step state_boot)) = 2048"
proof -
  have h: "\<forall>x \<in> set (calibration_samples env_step state_boot). 0 \<le> sint x \<and> sint x \<le> 4095"
    by (simp add: samples_env_step)
  have "truncated_mean (calibration_samples env_step state_boot) = 2048"
    by (simp add: truncated_mean_def samples_env_step sum_list_replicate)
  with calibrate_truncated_mean [OF h] show ?thesis
    by (simp add: samples_env_step)
qed

text \<open>
  C9: calibration is a function of the 1024 samples it reads. Two runs that read the same
  sample sequence store the same offset, whatever else differs between the two starting
  states (the clock, the previous offset, the history); in particular a second run after a
  first one, on the same samples, stores the same offset again.
\<close>

theorem calibrate_deterministic:
  assumes "calibration_samples e1 s1 = calibration_samples e2 s2"
  shows "adc_dc_offset (calibrateDCOffset e1 s1) = adc_dc_offset (calibrateDCOffset e2 s2)"
  using assms by (simp add: calibrate_offset)

theorem calibrate_deterministic_witness:
  "calibration_samples (env_fixed 2048 True True) state_boot =
     calibration_samples (env_fixed 2048 True True)
       (calibrateDCOffset (env_fixed 2048 True True) state_boot)
   \<and> adc_dc_offset (calibrateDCOffset (env_fixed 2048 True True) state_boot) =
     adc_dc_offset (calibrateDCOffset (env_fixed 2048 True True)
       (calibrateDCOffset (env_fixed 2048 True True) state_boot))"
proof -
  have h: "calibration_samples (env_fixed 2048 True True) state_boot =
     calibration_samples (env_fixed 2048 True True)
       (calibrateDCOffset (env_fixed 2048 True True) state_boot)"
    by (simp add: calibration_samples_def env_fixed_def)
  from h calibrate_deterministic [OF h] show ?thesis
    by (rule conjI)
qed

section \<open>The sampling loop\<close>

lemma capture_events_0 [simp]: "capture_events e t n0 0 = []"
  by (simp add: capture_events_def)

lemma capture_events_Suc:
  "capture_events e t n0 (Suc m) =
     Deadline t # AdcRead Capture (adc_raw e n0) #
       capture_events e (t + SAMPLING_PERIOD_US) (Suc n0) m"
proof -
  have "[0..<Suc m] = 0 # map Suc [0..<m]"
    by (simp add: upt_conv_Cons map_Suc_upt del: upt_Suc)
  then show ?thesis
    by (simp add: capture_events_def comp_def algebra_simps del: upt_Suc)
qed

text \<open>The busy-wait changes nothing but the clock.\<close>

lemma spin_wait_frame: "spin_wait d s = s\<lparr>now_us := now_us (spin_wait d s)\<rparr>"
proof (induction d s rule: spin_wait.induct)
  case (1 d s)
  show ?case
  proof (cases "fst (micros s) < d")
    case True
    have "spin_wait d (snd (micros s)) =
        (snd (micros s))\<lparr>now_us := now_us (spin_wait d (snd (micros s)))\<rparr>"
      by (rule "1.IH" [OF prod.collapse True])
    moreover have "spin_wait d s = spin_wait d (snd (micros s))"
      using True by (subst spin_wait.simps) (simp add: case_prod_beta)
    ultimately show ?thesis
      by (simp add: micros_def)
  next
    case False
    then have "spin_wait d s = snd (micros s)"
      by (subst spin_wait.simps) (simp add: case_prod_beta)
    then show ?thesis
      by (simp add: micros_def)
  qed
qed

text \<open>
  The busy-wait ends right after a reading of the clock that is not below the deadline.
\<close>

lemma spin_wait_reaches:
  "\<exists>n. now_us (spin_wait d s) = Suc n \<and> now_us s \<le> n \<and> \<not> (word_of_nat n :: uint32) < d"
proof (induction d s rule: spin_wait.induct)
  case (1 d s)
  show ?case
  proof (cases "fst (micros s) < d")
    case True
    have "\<exists>n. now_us (spin_wait d (snd (micros s))) = Suc n \<and> now_us (snd (micros s)) \<le> n
        \<and> \<not> (word_of_nat n :: uint32) < d"
      by (rule "1.IH" [OF prod.collapse True])
    then obtain n where n: "now_us (spin_wait d (snd (micros s))) = Suc n"
        "now_us (snd (micros s)) \<le> n" "\<not> (word_of_nat n :: uint32) < d"
      by blast
    have "spin_wait d s = spin_wait d (snd (micros s))"
      using True by (subst spin_wait.simps) (simp add: case_prod_beta)
    moreover from n(2) have "now_us s \<le> n"
      by (simp add: micros_def)
    ultimately show ?thesis
      using n by auto
  next
    case False
    then have "spin_wait d s = snd (micros s)"
      by (subst spin_wait.simps) (simp add: case_prod_beta)
    with False show ?thesis
      by (simp add: micros_def)
  qed
qed

lemma spin_wait_fields [simp]:
  "trace (spin_wait d s) = trace s"
  "n_adc (spin_wait d s) = n_adc s"
  "n_malloc (spin_wait d s) = n_malloc s"
  "n_open (spin_wait d s) = n_open s"
  "isRecording (spin_wait d s) = isRecording s"
  "adc_dc_offset (spin_wait d s) = adc_dc_offset s"
  by (subst spin_wait_frame, simp)+

text \<open>
  The state after the loop: \<open>TOTAL_SAMPLES - i\<close> more conversions, and the actions of
  that many iterations; the globals are untouched.
\<close>

lemma capture_loop_state:
  "snd (capture_loop e i t buf s) =
     s\<lparr>now_us := now_us (snd (capture_loop e i t buf s)),
       n_adc := n_adc s + (TOTAL_SAMPLES - i),
       trace := trace s @ capture_events e t (n_adc s) (TOTAL_SAMPLES - i)\<rparr>"
proof (induction e i t buf s rule: capture_loop.induct)
  case (1 e i t buf s)
  show ?case
  proof (cases "i < TOTAL_SAMPLES")
    case True
    define s0 where "s0 = spin_wait t (emit (Deadline t) s)"
    define raw where "raw = adc_raw e (n_adc s)"
    define s1 where "s1 = emit (AdcRead Capture raw) (s0\<lparr>n_adc := n_adc s0 + 1\<rparr>)"
    define buf1 where "buf1 = buf[i := scaled_sample raw (adc_dc_offset s1)]"
    have adc: "adc1_get_raw e Capture s0 = (raw, s1)"
      by (simp add: adc1_get_raw_def Let_def raw_def s1_def s0_def emit_def)
    have step: "capture_loop e i t buf s =
        capture_loop e (i + 1) (t + SAMPLING_PERIOD_US) buf1 s1"
      using True adc by (subst capture_loop.simps) (simp add: s0_def buf1_def)
    have ih: "snd (capture_loop e (i + 1) (t + SAMPLING_PERIOD_US) buf1 s1) =
        s1\<lparr>now_us := now_us (snd (capture_loop e (i + 1) (t + SAMPLING_PERIOD_US) buf1 s1)),
          n_adc := n_adc s1 + (TOTAL_SAMPLES - (i + 1)),
          trace := trace s1 @ capture_events e (t + SAMPLING_PERIOD_US) (n_adc s1)
                     (TOTAL_SAMPLES - (i + 1))\<rparr>"
      using "1.IH" [OF True adc [unfolded s0_def, symmetric]]
      by (simp add: buf1_def)
    from True obtain m where m: "TOTAL_SAMPLES - i = Suc m" "TOTAL_SAMPLES - Suc i = m"
      by (cases "TOTAL_SAMPLES - i") simp_all
    show ?thesis
      unfolding step
      by (subst ih, rule state.equality)
        (simp_all add: m capture_events_Suc raw_def s1_def s0_def emit_def)
  next
    case False
    then show ?thesis
      by (subst (1 2) capture_loop.simps) simp
  qed
qed

text \<open>The buffer after the loop: the cells below \<open>i\<close> as they were, the rest filled.\<close>

lemma capture_loop_buffer:
  "i \<le> TOTAL_SAMPLES \<Longrightarrow> length buf = TOTAL_SAMPLES \<Longrightarrow>
   fst (capture_loop e i t buf s) =
     take i buf @ map (\<lambda>k. scaled_sample (adc_raw e (n_adc s + k)) (adc_dc_offset s))
                    [0..<TOTAL_SAMPLES - i]"
proof (induction e i t buf s rule: capture_loop.induct)
  case (1 e i t buf s)
  show ?case
  proof (cases "i < TOTAL_SAMPLES")
    case True
    define s0 where "s0 = spin_wait t (emit (Deadline t) s)"
    define raw where "raw = adc_raw e (n_adc s)"
    define s1 where "s1 = emit (AdcRead Capture raw) (s0\<lparr>n_adc := n_adc s0 + 1\<rparr>)"
    define v where "v = scaled_sample raw (adc_dc_offset s)"
    have off: "adc_dc_offset s1 = adc_dc_offset s" and n1: "n_adc s1 = Suc (n_adc s)"
      by (simp_all add: s1_def s0_def emit_def)
    have adc: "adc1_get_raw e Capture s0 = (raw, s1)"
      by (simp add: adc1_get_raw_def Let_def raw_def s1_def s0_def emit_def)
    have step: "capture_loop e i t buf s =
        capture_loop e (i + 1) (t + SAMPLING_PERIOD_US) (buf[i := v]) s1"
      using True adc by (subst capture_loop.simps) (simp add: s0_def v_def off)
    have ih: "fst (capture_loop e (i + 1) (t + SAMPLING_PERIOD_US) (buf[i := v]) s1) =
        take (i + 1) (buf[i := v]) @
        map (\<lambda>k. scaled_sample (adc_raw e (n_adc s1 + k)) (adc_dc_offset s1))
          [0..<TOTAL_SAMPLES - (i + 1)]"
      using "1.IH" [OF True adc [unfolded s0_def, symmetric]] True "1.prems"
      by (simp add: v_def off)
    from True obtain m where m: "TOTAL_SAMPLES - i = Suc m" "TOTAL_SAMPLES - Suc i = m"
      by (cases "TOTAL_SAMPLES - i") simp_all
    have up: "[0..<Suc m] = 0 # map Suc [0..<m]"
      by (simp add: upt_conv_Cons map_Suc_upt del: upt_Suc)
    have tk: "take (Suc i) (buf[i := v]) = take i buf @ [v]"
      using True "1.prems" by (simp add: take_Suc_conv_app_nth)
    show ?thesis
      unfolding step ih
      by (simp add: m up tk off n1 comp_def del: upt_Suc) (simp add: v_def raw_def)
  next
    case False
    with "1.prems" show ?thesis
      by (subst capture_loop.simps) simp
  qed
qed

lemma deadlines_append [simp]: "deadlines (xs @ ys) = deadlines xs @ deadlines ys"
  by (induction xs rule: deadlines.induct) simp_all

lemma capture_reads_append [simp]:
  "capture_reads (xs @ ys) = capture_reads xs @ capture_reads ys"
  by (induction xs rule: capture_reads.induct) simp_all

lemma entered_append [simp]: "entered (xs @ ys) = entered xs @ entered ys"
  by (induction xs rule: entered.induct) simp_all

lemma deadlines_capture_events:
  "deadlines (capture_events e t n0 m) = map (\<lambda>k. t + of_nat k * SAMPLING_PERIOD_US) [0..<m]"
proof (induction m arbitrary: t n0)
  case 0
  then show ?case by simp
next
  case (Suc m)
  have up: "[0..<Suc m] = 0 # map Suc [0..<m]"
    by (simp add: upt_conv_Cons map_Suc_upt del: upt_Suc)
  show ?case
    by (simp add: capture_events_Suc Suc up comp_def algebra_simps del: upt_Suc)
qed

lemma capture_reads_capture_events:
  "capture_reads (capture_events e t n0 m) = map (\<lambda>k. adc_raw e (n0 + k)) [0..<m]"
proof (induction m arbitrary: t n0)
  case 0
  then show ?case by simp
next
  case (Suc m)
  have up: "[0..<Suc m] = 0 # map Suc [0..<m]"
    by (simp add: upt_conv_Cons map_Suc_upt del: upt_Suc)
  show ?case
    by (simp add: capture_events_Suc Suc up comp_def del: upt_Suc)
qed

lemma entered_capture_events [simp]: "entered (capture_events e t n0 m) = []"
  by (induction m arbitrary: t n0) (simp_all add: capture_events_Suc)

lemma capture_events_kinds:
  "ev \<in> set (capture_events e t n0 m) \<Longrightarrow>
     (\<exists>d. ev = Deadline d) \<or> (\<exists>v. ev = AdcRead Capture v)"
  by (auto simp: capture_events_def)

section \<open>Allocation and capture\<close>

lemma capture_fail:
  "\<not> malloc_ok e (n_malloc s) \<Longrightarrow>
   capture e s = (None, s\<lparr>n_malloc := n_malloc s + 1, trace := trace s @ [Malloc False]\<rparr>)"
  by (simp add: capture_def malloc_buffer_def emit_def Let_def)

lemma capture_ok_unfold:
  assumes "malloc_ok e (n_malloc s)"
  shows "capture e s =
    (Some (fst (capture_loop e 0 (fst (micros (snd (malloc_buffer e s))))
        (map (heap_junk e) [0..<TOTAL_SAMPLES]) (snd (micros (snd (malloc_buffer e s)))))),
     snd (capture_loop e 0 (fst (micros (snd (malloc_buffer e s))))
        (map (heap_junk e) [0..<TOTAL_SAMPLES]) (snd (micros (snd (malloc_buffer e s))))))"
proof -
  have mb: "fst (malloc_buffer e s) = Some (map (heap_junk e) [0..<TOTAL_SAMPLES])"
    using assms by (simp add: malloc_buffer_def Let_def)
  show ?thesis
    by (simp add: capture_def case_prod_beta mb)
qed

lemma capture_ok_fst:
  assumes "malloc_ok e (n_malloc s)"
  shows "fst (capture e s) = Some (captured e s)"
  unfolding capture_ok_unfold [OF assms]
  by (simp, subst capture_loop_buffer)
    (simp_all add: captured_def micros_def malloc_buffer_def emit_def Let_def)

lemma capture_ok_snd:
  assumes "malloc_ok e (n_malloc s)"
  shows "snd (capture e s) =
      s\<lparr>now_us := now_us (snd (capture e s)), n_adc := n_adc s + TOTAL_SAMPLES,
        n_malloc := n_malloc s + 1,
        trace := trace s @ Malloc True #
          capture_events e (word_of_nat (now_us s)) (n_adc s) TOTAL_SAMPLES\<rparr>"
  unfolding capture_ok_unfold [OF assms] snd_conv
  by (subst capture_loop_state, rule state.equality)
    (simp_all add: micros_def malloc_buffer_def emit_def Let_def assms)

lemma capture_ok_events:
  assumes "malloc_ok e (n_malloc s)"
  shows "events_since s (snd (capture e s)) =
     Malloc True # capture_events e (word_of_nat (now_us s)) (n_adc s) TOTAL_SAMPLES"
  unfolding events_since_def by (subst capture_ok_snd [OF assms]) simp

lemma capture_ok_pair:
  assumes "malloc_ok e (n_malloc s)"
  shows "capture e s = (Some (captured e s), snd (capture e s))"
  using capture_ok_fst [OF assms] by (simp add: prod_eq_iff)

lemma length_captured: "length (captured e s) = TOTAL_SAMPLES"
  by (simp add: captured_def)

section \<open>The scaled sample\<close>

lemma sint_scaled_sample:
  "sint (scaled_sample raw d) = signed_take_bit 15 ((sint raw - sint d) * 8)"
proof -
  let ?x = "sint raw - sint d"
  have "sint (scaled_sample raw d) = signed_take_bit 15 (sint ((raw - d) * 8))"
    unfolding scaled_sample_def GAIN_FACTOR_def by (simp add: signed_scast_eq)
  also have "sint ((raw - d) * 8) = signed_take_bit 31 (signed_take_bit 31 ?x * 8)"
  proof -
    have i: "sint (raw - d) = signed_take_bit 31 ?x"
      by (simp add: sint_word_ariths)
    have "sint ((raw - d) * 8) =
        signed_take_bit (LENGTH(32) - 1) (sint (raw - d) * sint (8 :: int32))"
      by (rule sint_word_ariths)
    also have "\<dots> = signed_take_bit 31 (sint (raw - d) * 8)"
      by simp
    finally show ?thesis
      by (simp only: i)
  qed
  also have "signed_take_bit 15 (signed_take_bit 31 (signed_take_bit 31 ?x * 8))
      = signed_take_bit 15 (signed_take_bit 31 ?x * 8)"
    by simp
  also have "\<dots> = signed_take_bit 15
      (signed_take_bit 15 (signed_take_bit 31 ?x) * signed_take_bit 15 8)"
    by (simp only: signed_take_bit_mult)
  also have "\<dots> = signed_take_bit 15 (signed_take_bit 15 ?x * signed_take_bit 15 8)"
    by simp
  also have "\<dots> = signed_take_bit 15 (?x * 8)"
    by (simp only: signed_take_bit_mult)
  finally show ?thesis .
qed

lemma wrap16: "signed_take_bit 15 (x :: int) = (x + 32768) mod 65536 - 32768"
  by (simp add: signed_take_bit_eq_take_bit_shift take_bit_eq_mod)

lemma unat_deadline:
  "unat t + i * 125 < 2 ^ 32 \<Longrightarrow> unat (t + of_nat i * 125) = unat t + i * 125"
  for t :: uint32
proof -
  assume b: "unat t + i * 125 < 2 ^ 32"
  have "unat (of_nat i * (125 :: uint32)) = unat (of_nat (i * 125) :: uint32)"
    by simp
  also have "\<dots> = (i * 125) mod 2 ^ LENGTH(32)"
    by (rule unat_of_nat)
  also have "\<dots> = i * 125"
    using b by simp
  finally have "unat (of_nat i * (125 :: uint32)) = i * 125" .
  with b show ?thesis
    by (simp add: unat_word_ariths)
qed

section \<open>recordAndAlert and loop as traces\<close>

lemma recordAndAlert_state:
  "recordAndAlert e a s =
     s\<lparr>now_us := now_us (recordAndAlert e a s),
       n_adc := n_adc (recordAndAlert e a s),
       n_malloc := n_malloc s + 1,
       n_open := n_open (recordAndAlert e a s),
       trace := trace s @ record_events e a s\<rparr>"
proof (cases "malloc_ok e (n_malloc s)")
  case False
  then have "capture e (emit (Enter a) s) =
      (None, s\<lparr>n_malloc := n_malloc s + 1, trace := trace s @ [Enter a, Malloc False]\<rparr>)"
    by (subst capture_fail) (simp_all add: emit_def)
  with False show ?thesis
    by (simp add: recordAndAlert_def record_events_def emit_def)
next
  case True
  define s1 where "s1 = snd (capture e (emit (Enter a) s))"
  have ok: "malloc_ok e (n_malloc (emit (Enter a) s))"
    using True by (simp add: emit_def)
  have "fst (capture e (emit (Enter a) s)) = Some (captured e s)"
    by (subst capture_ok_fst [OF ok]) (simp add: captured_def emit_def)
  then have c: "capture e (emit (Enter a) s) = (Some (captured e s), s1)"
    by (simp add: s1_def prod_eq_iff)
  have s1: "s1 = s\<lparr>now_us := now_us s1, n_adc := n_adc s + TOTAL_SAMPLES,
        n_malloc := n_malloc s + 1,
        trace := trace s @ Enter a # Malloc True #
          capture_events e (word_of_nat (now_us s)) (n_adc s) TOTAL_SAMPLES\<rparr>"
    unfolding s1_def
    by (subst capture_ok_snd [OF ok], rule state.equality) (simp_all add: emit_def)
  have f: "isRecording s1 = isRecording s" "adc_dc_offset s1 = adc_dc_offset s"
    "n_open s1 = n_open s" "n_malloc s1 = n_malloc s + 1" "state.more s1 = state.more s"
    "trace s1 = trace s @ Enter a # Malloc True #
          capture_events e (word_of_nat (now_us s)) (n_adc s) TOTAL_SAMPLES"
    by (subst s1, simp)+
  have r: "recordAndAlert e a s =
      (case spiffs_open_w e s1 of
         (False, s2) \<Rightarrow> emit Return (emit Free s2)
       | (True, s2) \<Rightarrow>
           emit Return (emit (Publish a)
             (emit Free (emit FileClose (emit (FileWrite (captured e s)) s2)))))"
    unfolding recordAndAlert_def c by simp
  show ?thesis
    using True unfolding r
    by (cases "open_ok e (n_open s)"; intro state.equality)
      (simp_all add: spiffs_open_w_def emit_def f record_events_def
        handoff_events_def Let_def)
qed

lemma recordAndAlert_fields [simp]:
  "trace (recordAndAlert e a s) = trace s @ record_events e a s"
  "isRecording (recordAndAlert e a s) = isRecording s"
  "adc_dc_offset (recordAndAlert e a s) = adc_dc_offset s"
  "n_malloc (recordAndAlert e a s) = n_malloc s + 1"
  by (subst recordAndAlert_state, simp)+

lemma events_since_record: "events_since s (recordAndAlert e a s) = record_events e a s"
  by (simp add: events_since_def)

lemma recordAndAlert_fail:
  "\<not> malloc_ok e (n_malloc s) \<Longrightarrow>
   recordAndAlert e a s =
     s\<lparr>n_malloc := n_malloc s + 1, trace := trace s @ [Enter a, Malloc False, Return]\<rparr>"
  by (simp add: recordAndAlert_def capture_def malloc_buffer_def emit_def Let_def)

lemma record_events_last: "last (record_events e a s) = Return"
  by (simp add: record_events_def handoff_events_def)

lemma record_events_nonempty: "record_events e a s \<noteq> []"
  by (simp add: record_events_def)

lemma loop_trace: "trace (loop e s) = trace s @ loop_events e s"
  by (simp add: loop_def loop_events_def amplitude_of_def Let_def adc1_get_raw_def emit_def
      delay_def set_isRecording_def record_events_def captured_def)

lemma events_since_loop: "events_since s (loop e s) = loop_events e s"
  by (simp add: events_since_def loop_trace)

lemma loop_isRecording: "isRecording (loop e s) = isRecording s"
  by (simp add: loop_def Let_def adc1_get_raw_def emit_def delay_def set_isRecording_def)

lemma loop_offset: "adc_dc_offset (loop e s) = adc_dc_offset s"
  by (simp add: loop_def Let_def adc1_get_raw_def emit_def delay_def set_isRecording_def)

lemma loop_iter_isRecording: "isRecording ((loop e ^^ n) s) = isRecording s"
  by (induction n) (simp_all add: loop_isRecording)

lemma loop_after_record:
  assumes "\<not> isRecording s" and "AMPLITUDE_THRESHOLD <s amplitude_of e s"
  shows "loop e s = delay 1 (delay 2000 (set_isRecording False (after_record e s)))"
  using assms
  by (simp add: loop_def after_record_def amplitude_of_def Let_def adc1_get_raw_def emit_def)

text \<open>
  The amplitude is the absolute difference whenever that difference is representable.
\<close>

lemma abs_int_sint:
  "\<bar>sint v - sint d\<bar> < 2 ^ 31 \<Longrightarrow> sint (abs_int (v - d)) = \<bar>sint v - sint d\<bar>"
  for v d :: int32
proof -
  assume b: "\<bar>sint v - sint d\<bar> < 2 ^ 31"
  then have "signed_take_bit 31 (sint v - sint d) = sint v - sint d"
    by (intro signed_take_bit_int_eq_self) simp_all
  then have d: "sint (v - d) = sint v - sint d"
    by (simp add: sint_word_ariths)
  have "signed_take_bit 31 (- (sint v - sint d)) = - (sint v - sint d)"
    using b by (intro signed_take_bit_int_eq_self) simp_all
  then have n: "sint (- (v - d)) = - (sint v - sint d)"
    using d by (simp add: sint_word_ariths)
  show ?thesis
    using d n by (simp add: abs_int_def word_sless_alt)
qed

section \<open>The flag while a capture runs\<close>

lemma capture_loop_isRecording:
  "isRecording (snd (capture_loop e i t buf s)) = isRecording s"
  by (subst capture_loop_state) simp

lemma capture_isRecording: "isRecording (snd (capture e s)) = isRecording s"
proof (cases "malloc_ok e (n_malloc s)")
  case True
  then show ?thesis
    by (subst capture_ok_snd) simp_all
next
  case False
  then show ?thesis
    by (simp add: capture_fail)
qed

lemma before_record_isRecording: "isRecording (before_record e s)"
  by (simp add: before_record_def set_isRecording_def emit_def)

lemma after_record_before:
  "after_record e s = recordAndAlert e (amplitude_of e s) (before_record e s)"
  by (simp add: after_record_def before_record_def)

lemma after_record_isRecording: "isRecording (after_record e s)"
  by (simp add: after_record_before before_record_isRecording)

lemma loop_locked:
  "isRecording s \<Longrightarrow>
   events_since s (loop e s) = [Housekeeping, Delay 1] \<and> isRecording (loop e s)"
  by (simp add: events_since_loop loop_events_def loop_isRecording)

section \<open>The automaton accepts every run\<close>

lemma monitor_append:
  "monitor p (xs @ ys) = (case monitor p xs of None \<Rightarrow> None | Some p' \<Rightarrow> monitor p' ys)"
  by (induction xs arbitrary: p) (simp_all split: option.splits)

lemma monitor_prefix: "monitor p es = Some q \<Longrightarrow> monitor p (take k es) \<noteq> None"
  using monitor_append [of p "take k es" "drop k es"] by (auto split: option.splits)

lemma monitor_capture_events: "monitor Filling (capture_events e t n0 m) = Some Filling"
  by (induction m arbitrary: t n0) (simp_all add: capture_events_Suc monitor_step_def)

lemma monitor_record_events: "monitor Locked (record_events e a s) = Some Locked"
  by (simp add: record_events_def handoff_events_def monitor_step_def monitor_append
      monitor_capture_events)

lemma monitor_loop_events:
  "\<not> isRecording s \<Longrightarrow> monitor Armed (loop_events e s) = Some Armed"
  by (simp add: loop_events_def monitor_step_def monitor_append monitor_record_events)

lemma run_trace:
  "\<not> isRecording s \<Longrightarrow>
   \<exists>es. trace ((loop e ^^ n) s) = trace s @ es \<and> monitor Armed es = Some Armed"
proof (induction n)
  case 0
  then show ?case by simp
next
  case (Suc n)
  then obtain es where es: "trace ((loop e ^^ n) s) = trace s @ es"
      "monitor Armed es = Some Armed"
    by blast
  have fl: "\<not> isRecording ((loop e ^^ n) s)"
    using Suc.prems by (simp add: loop_iter_isRecording)
  have "trace ((loop e ^^ Suc n) s) = trace s @ (es @ loop_events e ((loop e ^^ n) s))"
    by (simp add: loop_trace es)
  moreover have "monitor Armed (es @ loop_events e ((loop e ^^ n) s)) = Some Armed"
    by (simp add: monitor_append es monitor_loop_events [OF fl])
  ultimately show ?case by blast
qed

lemma run_accepted:
  "\<not> isRecording s \<Longrightarrow> monitor Armed (events_since s ((loop e ^^ n) s)) = Some Armed"
  using run_trace [where s = s and e = e and n = n] by (auto simp: events_since_def)

section \<open>The trigger\<close>

lemma amplitude_fixed:
  "amplitude_of (env_fixed 2600 m f) state_armed = 552"
  "amplitude_of (env_fixed 2548 m f) state_armed = 500"
  by (simp_all add: amplitude_of_def env_fixed_def state_armed_def abs_int_def word_sless_alt)

text \<open>
  C1: while the flag is clear, one iteration of \<open>loop()\<close> enters \<open>recordAndAlert\<close> if and
  only if the absolute difference between the reading and the offset exceeds the threshold
  500, and then passes that difference as the trigger amplitude; at a difference of
  exactly 500 (or less) it does nothing but read, wait one millisecond and stay armed.
  The difference must be representable in 32 bits, which it is for every reading and
  offset of a 12-bit converter.
\<close>

theorem trigger_iff_threshold:
  assumes "\<not> isRecording s"
    and "\<bar>sint (adc_raw e (n_adc s)) - sint (adc_dc_offset s)\<bar> < 2 ^ 31"
  shows "sint AMPLITUDE_THRESHOLD = 500
    \<and> map sint (entered (events_since s (loop e s))) =
        (if sint AMPLITUDE_THRESHOLD < \<bar>sint (adc_raw e (n_adc s)) - sint (adc_dc_offset s)\<bar>
         then [\<bar>sint (adc_raw e (n_adc s)) - sint (adc_dc_offset s)\<bar>] else [])
    \<and> (\<bar>sint (adc_raw e (n_adc s)) - sint (adc_dc_offset s)\<bar> \<le> sint AMPLITUDE_THRESHOLD \<longrightarrow>
          events_since s (loop e s) =
            [Housekeeping, AdcRead Trigger (adc_raw e (n_adc s)), Delay 1]
          \<and> \<not> isRecording (loop e s))"
  using assms abs_int_sint [OF assms(2)]
  by (auto simp add: events_since_loop loop_events_def amplitude_of_def AMPLITUDE_THRESHOLD_def
      word_sless_alt record_events_def handoff_events_def loop_isRecording)

theorem trigger_iff_threshold_witness:
  "\<not> isRecording state_armed
   \<and> \<bar>sint (adc_raw (env_fixed 2548 True True) (n_adc state_armed))
        - sint (adc_dc_offset state_armed)\<bar> = 500
   \<and> events_since state_armed (loop (env_fixed 2548 True True) state_armed) =
        [Housekeeping, AdcRead Trigger 2548, Delay 1]
   \<and> \<bar>sint (adc_raw (env_fixed 2600 True True) (n_adc state_armed))
        - sint (adc_dc_offset state_armed)\<bar> = 552
   \<and> map sint (entered (events_since state_armed (loop (env_fixed 2600 True True) state_armed)))
        = [552]"
proof -
  have armed: "\<not> isRecording state_armed"
    by (simp add: state_armed_def)
  have d1: "\<bar>sint (adc_raw (env_fixed 2548 True True) (n_adc state_armed))
        - sint (adc_dc_offset state_armed)\<bar> = 500"
    and d2: "\<bar>sint (adc_raw (env_fixed 2600 True True) (n_adc state_armed))
        - sint (adc_dc_offset state_armed)\<bar> = 552"
    by (simp_all add: env_fixed_def state_armed_def)
  have r1: "adc_raw (env_fixed 2548 True True) (n_adc state_armed) = 2548"
    by (simp add: env_fixed_def)
  have b1: "\<bar>sint (adc_raw (env_fixed 2548 True True) (n_adc state_armed))
        - sint (adc_dc_offset state_armed)\<bar> < 2 ^ 31"
    and b2: "\<bar>sint (adc_raw (env_fixed 2600 True True) (n_adc state_armed))
        - sint (adc_dc_offset state_armed)\<bar> < 2 ^ 31"
    unfolding d1 d2 by simp_all
  have t: "sint AMPLITUDE_THRESHOLD = 500"
    by (simp add: AMPLITUDE_THRESHOLD_def)
  from trigger_iff_threshold [OF armed b1]
  have c1: "events_since state_armed (loop (env_fixed 2548 True True) state_armed) =
        [Housekeeping, AdcRead Trigger 2548, Delay 1]"
    unfolding d1 t by (simp add: r1)
  from trigger_iff_threshold [OF armed b2]
  have c2: "map sint
      (entered (events_since state_armed (loop (env_fixed 2600 True True) state_armed))) = [552]"
    unfolding d2 t by simp
  from armed d1 c1 d2 c2 show ?thesis by blast
qed

section \<open>The single-capture discipline\<close>

text \<open>
  C6: started with the flag clear, any number of iterations of \<open>loop()\<close> produce a trace
  that the automaton accepts at every moment and that ends armed. So at most one buffer
  is held at a time, \<open>recordAndAlert\<close> is entered only after the flag was set, the flag
  is cleared only after \<open>recordAndAlert\<close> has returned, the trigger reads the converter
  only with the flag clear, and no second capture begins while one is in progress.
  The flag variable itself follows: in every iteration that triggers, \<open>isRecording\<close> holds
  in the state in which \<open>recordAndAlert\<close> is called and in the state in which it returns,
  and is cleared only by the assignment that follows the return; neither
  \<open>recordAndAlert\<close> nor the capture, the sampling loop from any index or the busy-wait
  changes it. And an iteration of \<open>loop()\<close> that finds the flag set evaluates no trigger
  and starts no capture: it does the housekeeping and waits one millisecond.
\<close>

theorem single_capture_invariant:
  assumes "\<not> isRecording s"
  shows "monitor Armed (events_since s ((loop e ^^ n) s)) = Some Armed
    \<and> (\<forall>k. monitor Armed (take k (events_since s ((loop e ^^ n) s))) \<noteq> None)
    \<and> \<not> isRecording ((loop e ^^ n) s)
    \<and> (\<forall>k. AMPLITUDE_THRESHOLD <s amplitude_of e ((loop e ^^ k) s) \<longrightarrow>
          isRecording (before_record e ((loop e ^^ k) s))
          \<and> after_record e ((loop e ^^ k) s) =
              recordAndAlert e (amplitude_of e ((loop e ^^ k) s))
                (before_record e ((loop e ^^ k) s))
          \<and> isRecording (after_record e ((loop e ^^ k) s))
          \<and> loop e ((loop e ^^ k) s) =
              delay 1 (delay 2000 (set_isRecording False (after_record e ((loop e ^^ k) s))))
          \<and> \<not> isRecording (loop e ((loop e ^^ k) s)))
    \<and> (\<forall>a s'. isRecording (recordAndAlert e a s') = isRecording s')
    \<and> (\<forall>s'. isRecording (snd (capture e s')) = isRecording s')
    \<and> (\<forall>i t buf s'. isRecording (snd (capture_loop e i t buf s')) = isRecording s')
    \<and> (\<forall>d s'. isRecording (spin_wait d s') = isRecording s')
    \<and> (\<forall>s'. isRecording s' \<longrightarrow>
          events_since s' (loop e s') = [Housekeeping, Delay 1] \<and> isRecording (loop e s'))"
proof -
  have acc: "monitor Armed (events_since s ((loop e ^^ n) s)) = Some Armed"
    by (rule run_accepted [OF assms])
  have pre: "\<forall>k. monitor Armed (take k (events_since s ((loop e ^^ n) s))) \<noteq> None"
    using monitor_prefix [OF acc] by blast
  have armed: "\<not> isRecording ((loop e ^^ k) s)" for k
    using assms by (simp add: loop_iter_isRecording)
  have trig: "\<forall>k. AMPLITUDE_THRESHOLD <s amplitude_of e ((loop e ^^ k) s) \<longrightarrow>
          isRecording (before_record e ((loop e ^^ k) s))
          \<and> after_record e ((loop e ^^ k) s) =
              recordAndAlert e (amplitude_of e ((loop e ^^ k) s))
                (before_record e ((loop e ^^ k) s))
          \<and> isRecording (after_record e ((loop e ^^ k) s))
          \<and> loop e ((loop e ^^ k) s) =
              delay 1 (delay 2000 (set_isRecording False (after_record e ((loop e ^^ k) s))))
          \<and> \<not> isRecording (loop e ((loop e ^^ k) s))"
  proof (intro allI impI conjI)
    fix k
    assume t: "AMPLITUDE_THRESHOLD <s amplitude_of e ((loop e ^^ k) s)"
    show "isRecording (before_record e ((loop e ^^ k) s))"
      by (rule before_record_isRecording)
    show "after_record e ((loop e ^^ k) s) =
        recordAndAlert e (amplitude_of e ((loop e ^^ k) s)) (before_record e ((loop e ^^ k) s))"
      by (rule after_record_before)
    show "isRecording (after_record e ((loop e ^^ k) s))"
      by (rule after_record_isRecording)
    show "loop e ((loop e ^^ k) s) =
        delay 1 (delay 2000 (set_isRecording False (after_record e ((loop e ^^ k) s))))"
      by (rule loop_after_record [OF armed t])
    show "\<not> isRecording (loop e ((loop e ^^ k) s))"
      using armed [of k] by (simp add: loop_isRecording)
  qed
  have fr1: "\<forall>a s'. isRecording (recordAndAlert e a s') = isRecording s'"
    by (intro allI recordAndAlert_fields)
  have fr2: "\<forall>s'. isRecording (snd (capture e s')) = isRecording s'"
    by (intro allI capture_isRecording)
  have fr3: "\<forall>i t buf s'. isRecording (snd (capture_loop e i t buf s')) = isRecording s'"
    by (intro allI capture_loop_isRecording)
  have fr4: "\<forall>d s'. isRecording (spin_wait d s') = isRecording s'"
    by (intro allI spin_wait_fields)
  have gd: "\<forall>s'. isRecording s' \<longrightarrow>
          events_since s' (loop e s') = [Housekeeping, Delay 1] \<and> isRecording (loop e s')"
    by (intro allI impI loop_locked)
  show ?thesis
    by (intro conjI acc pre armed trig fr1 fr2 fr3 fr4 gd)
qed

theorem single_capture_invariant_witness:
  "\<not> isRecording state_armed
   \<and> monitor Armed
       (events_since state_armed ((loop (env_fixed 2600 True True) ^^ 3) state_armed))
     = Some Armed
   \<and> AMPLITUDE_THRESHOLD <s amplitude_of (env_fixed 2600 True True) state_armed
   \<and> isRecording (before_record (env_fixed 2600 True True) state_armed)
   \<and> isRecording (after_record (env_fixed 2600 True True) state_armed)
   \<and> \<not> isRecording (loop (env_fixed 2600 True True) state_armed)
   \<and> isRecording (state_armed\<lparr>isRecording := True\<rparr>)
   \<and> events_since (state_armed\<lparr>isRecording := True\<rparr>)
        (loop (env_fixed 2600 True True) (state_armed\<lparr>isRecording := True\<rparr>))
      = [Housekeeping, Delay 1]"
proof -
  let ?e = "env_fixed 2600 True True"
  let ?b = "state_armed\<lparr>isRecording := True\<rparr>"
  have armed: "\<not> isRecording state_armed"
    by (simp add: state_armed_def)
  have trig: "AMPLITUDE_THRESHOLD <s amplitude_of ?e state_armed"
    by (simp add: amplitude_fixed AMPLITUDE_THRESHOLD_def)
  have busy: "isRecording ?b"
    by simp
  note inv = single_capture_invariant [OF armed, where e = ?e]
  have acc: "monitor Armed (events_since state_armed ((loop ?e ^^ 3) state_armed)) = Some Armed"
    using inv [where n = 3] by (elim conjE)
  have "\<forall>k. AMPLITUDE_THRESHOLD <s amplitude_of ?e ((loop ?e ^^ k) state_armed) \<longrightarrow>
          isRecording (before_record ?e ((loop ?e ^^ k) state_armed))
          \<and> after_record ?e ((loop ?e ^^ k) state_armed) =
              recordAndAlert ?e (amplitude_of ?e ((loop ?e ^^ k) state_armed))
                (before_record ?e ((loop ?e ^^ k) state_armed))
          \<and> isRecording (after_record ?e ((loop ?e ^^ k) state_armed))
          \<and> loop ?e ((loop ?e ^^ k) state_armed) =
              delay 1 (delay 2000
                (set_isRecording False (after_record ?e ((loop ?e ^^ k) state_armed))))
          \<and> \<not> isRecording (loop ?e ((loop ?e ^^ k) state_armed))"
    using inv [where n = 0] by (elim conjE)
  from this [THEN spec, of 0, unfolded funpow_0] trig
  have fl: "isRecording (before_record ?e state_armed)"
    "isRecording (after_record ?e state_armed)" "\<not> isRecording (loop ?e state_armed)"
    by blast+
  have "\<forall>s'. isRecording s' \<longrightarrow>
      events_since s' (loop ?e s') = [Housekeeping, Delay 1] \<and> isRecording (loop ?e s')"
    using inv [where n = 0] by (elim conjE)
  from this [THEN spec, of ?b] busy
  have gd: "events_since ?b (loop ?e ?b) = [Housekeeping, Delay 1]"
    by blast
  show ?thesis
    by (intro conjI armed acc trig fl busy gd)
qed

section \<open>Cooldown\<close>

text \<open>
  C7: when an iteration of \<open>loop()\<close> triggers, then after \<open>recordAndAlert\<close> has returned,
  with or without a buffer, the iteration does exactly three more things: it clears the
  flag, waits 2000 ms and waits 1 ms. No conversion is read in between, the clock advances
  by 2001000 microseconds, and the next iteration starts armed and reads the converter for
  the trigger again.
\<close>

theorem cooldown_after_capture:
  assumes "\<not> isRecording s" and "AMPLITUDE_THRESHOLD <s amplitude_of e s"
  shows "trace (loop e s) = trace (after_record e s) @ [Flag False, Delay 2000, Delay 1]
    \<and> last (trace (after_record e s)) = Return
    \<and> now_us (loop e s) = now_us (after_record e s) + 2001000
    \<and> \<not> isRecording (loop e s)
    \<and> (\<exists>rest. events_since (loop e s) (loop e (loop e s)) =
          Housekeeping # AdcRead Trigger (adc_raw e (n_adc (loop e s))) # rest)"
proof -
  have l: "loop e s = delay 1 (delay 2000 (set_isRecording False (after_record e s)))"
    by (rule loop_after_record [OF assms])
  have t: "trace (loop e s) = trace (after_record e s) @ [Flag False, Delay 2000, Delay 1]"
    and c: "now_us (loop e s) = now_us (after_record e s) + 2001000"
    unfolding l by (simp_all add: delay_def set_isRecording_def emit_def)
  have r: "last (trace (after_record e s)) = Return"
    by (simp add: after_record_def record_events_last record_events_nonempty)
  have f: "\<not> isRecording (loop e s)"
    using assms(1) by (simp add: loop_isRecording)
  then have "\<exists>rest. events_since (loop e s) (loop e (loop e s)) =
      Housekeeping # AdcRead Trigger (adc_raw e (n_adc (loop e s))) # rest"
    by (simp add: events_since_loop loop_events_def)
  with t c r f show ?thesis by blast
qed

theorem cooldown_after_capture_witness:
  "\<not> isRecording state_armed
   \<and> AMPLITUDE_THRESHOLD <s amplitude_of (env_fixed 2600 False True) state_armed
   \<and> trace (loop (env_fixed 2600 False True) state_armed) =
       trace (after_record (env_fixed 2600 False True) state_armed)
         @ [Flag False, Delay 2000, Delay 1]
   \<and> now_us (loop (env_fixed 2600 False True) state_armed) =
       now_us (after_record (env_fixed 2600 False True) state_armed) + 2001000"
proof -
  have armed: "\<not> isRecording state_armed"
    by (simp add: state_armed_def)
  have trig: "AMPLITUDE_THRESHOLD <s amplitude_of (env_fixed 2600 False True) state_armed"
    by (simp add: amplitude_fixed AMPLITUDE_THRESHOLD_def)
  from cooldown_after_capture [OF armed trig] armed trig
  show ?thesis by blast
qed

section \<open>Failures\<close>

text \<open>
  C8: when the allocation fails, \<open>recordAndAlert\<close> does three things only: it is entered,
  the allocation fails, it returns. No conversion is read, no file is opened or written
  and no alert is published, and the capture yields no buffer. The iteration of
  \<open>loop()\<close> that triggered then clears the flag, waits out the cooldown and ends armed,
  having tried the allocation once.
\<close>

theorem alloc_failure_aborts:
  assumes "\<not> malloc_ok e (n_malloc s)"
  shows "fst (capture e s) = None
    \<and> events_since s (recordAndAlert e a s) = [Enter a, Malloc False, Return]
    \<and> n_adc (recordAndAlert e a s) = n_adc s
    \<and> n_open (recordAndAlert e a s) = n_open s
    \<and> (\<not> isRecording s \<and> AMPLITUDE_THRESHOLD <s amplitude_of e s \<longrightarrow>
         events_since s (loop e s) =
           [Housekeeping, AdcRead Trigger (adc_raw e (n_adc s)), Flag True,
            Enter (amplitude_of e s), Malloc False, Return,
            Flag False, Delay 2000, Delay 1]
         \<and> \<not> isRecording (loop e s)
         \<and> adc_dc_offset (loop e s) = adc_dc_offset s)"
proof -
  have "fst (capture e s) = None"
    using assms by (simp add: capture_fail)
  moreover have "events_since s (recordAndAlert e a s) = [Enter a, Malloc False, Return]"
    using assms by (simp add: events_since_record record_events_def)
  moreover have "n_adc (recordAndAlert e a s) = n_adc s"
    and "n_open (recordAndAlert e a s) = n_open s"
    using assms by (simp_all add: recordAndAlert_fail)
  moreover have "\<not> isRecording s \<and> AMPLITUDE_THRESHOLD <s amplitude_of e s \<longrightarrow>
         events_since s (loop e s) =
           [Housekeeping, AdcRead Trigger (adc_raw e (n_adc s)), Flag True,
            Enter (amplitude_of e s), Malloc False, Return,
            Flag False, Delay 2000, Delay 1]
         \<and> \<not> isRecording (loop e s)
         \<and> adc_dc_offset (loop e s) = adc_dc_offset s"
    using assms
    by (simp add: events_since_loop loop_events_def record_events_def loop_isRecording
        loop_offset)
  ultimately show ?thesis by blast
qed

theorem alloc_failure_aborts_witness:
  "\<not> malloc_ok (env_fixed 2600 False True) (n_malloc state_armed)
   \<and> \<not> isRecording state_armed
   \<and> AMPLITUDE_THRESHOLD <s amplitude_of (env_fixed 2600 False True) state_armed
   \<and> events_since state_armed (loop (env_fixed 2600 False True) state_armed) =
       [Housekeeping, AdcRead Trigger 2600, Flag True, Enter 552, Malloc False, Return,
        Flag False, Delay 2000, Delay 1]"
proof -
  have nomem: "\<not> malloc_ok (env_fixed 2600 False True) (n_malloc state_armed)"
    by (simp add: env_fixed_def)
  have armed: "\<not> isRecording state_armed"
    by (simp add: state_armed_def)
  have trig: "AMPLITUDE_THRESHOLD <s amplitude_of (env_fixed 2600 False True) state_armed"
    by (simp add: amplitude_fixed AMPLITUDE_THRESHOLD_def)
  have r: "adc_raw (env_fixed 2600 False True) (n_adc state_armed) = 2600"
    by (simp add: env_fixed_def)
  from alloc_failure_aborts [OF nomem, where a = 0] armed trig
  have "events_since state_armed (loop (env_fixed 2600 False True) state_armed) =
       [Housekeeping, AdcRead Trigger 2600, Flag True, Enter 552, Malloc False, Return,
        Flag False, Delay 2000, Delay 1]"
    by (simp add: r amplitude_fixed)
  with nomem armed trig show ?thesis by blast
qed

text \<open>
  C10: when the buffer was allocated and filled and the file then fails to open,
  \<open>recordAndAlert\<close> frees the buffer and returns: after the sampling loop the trace has
  only the failed open, the free and the return, so nothing is written, no file is
  closed and no alert is published. And in every call of \<open>recordAndAlert\<close>, an alert is
  published only as the last action before the return, right after the write, the
  close and the free.
\<close>

theorem open_failure_no_alert:
  "(malloc_ok e (n_malloc s) \<and> \<not> open_ok e (n_open s) \<longrightarrow>
      events_since s (recordAndAlert e a s) =
        Enter a # Malloc True #
          capture_events e (word_of_nat (now_us s)) (n_adc s) TOTAL_SAMPLES @
          [FileOpen False, Free, Return]
      \<and> (\<forall>x. Publish x \<notin> set (events_since s (recordAndAlert e a s)))
      \<and> (\<forall>b. FileWrite b \<notin> set (events_since s (recordAndAlert e a s)))
      \<and> FileClose \<notin> set (events_since s (recordAndAlert e a s)))
   \<and> (\<forall>x. Publish x \<in> set (events_since s (recordAndAlert e a s)) \<longrightarrow>
        (\<exists>pre buf. events_since s (recordAndAlert e a s) =
           pre @ [FileWrite buf, FileClose, Free, Publish x, Return]))"
proof -
  have k: "\<And>ev. ev \<in> set (capture_events e (word_of_nat (now_us s)) (n_adc s) TOTAL_SAMPLES)
      \<Longrightarrow> (\<forall>x. ev \<noteq> Publish x) \<and> (\<forall>b. ev \<noteq> FileWrite b) \<and> ev \<noteq> FileClose"
    by (auto dest: capture_events_kinds)
  have one: "malloc_ok e (n_malloc s) \<and> \<not> open_ok e (n_open s) \<longrightarrow>
      events_since s (recordAndAlert e a s) =
        Enter a # Malloc True #
          capture_events e (word_of_nat (now_us s)) (n_adc s) TOTAL_SAMPLES @
          [FileOpen False, Free, Return]
      \<and> (\<forall>x. Publish x \<notin> set (events_since s (recordAndAlert e a s)))
      \<and> (\<forall>b. FileWrite b \<notin> set (events_since s (recordAndAlert e a s)))
      \<and> FileClose \<notin> set (events_since s (recordAndAlert e a s))"
    using k by (auto simp: events_since_record record_events_def handoff_events_def)
  have two: "\<exists>pre buf. events_since s (recordAndAlert e a s) =
           pre @ [FileWrite buf, FileClose, Free, Publish x, Return]"
    if p: "Publish x \<in> set (events_since s (recordAndAlert e a s))" for x
  proof -
    from p k have ok: "malloc_ok e (n_malloc s)" "open_ok e (n_open s)" and x: "x = a"
      by (auto simp: events_since_record record_events_def handoff_events_def
          split: if_splits)
    have "events_since s (recordAndAlert e a s) =
        (Enter a # Malloc True #
          capture_events e (word_of_nat (now_us s)) (n_adc s) TOTAL_SAMPLES @ [FileOpen True])
        @ [FileWrite (captured e s), FileClose, Free, Publish x, Return]"
      using ok x by (simp add: events_since_record record_events_def handoff_events_def)
    then show ?thesis by blast
  qed
  from one two show ?thesis by blast
qed

theorem open_failure_no_alert_witness:
  "malloc_ok (env_fixed 2600 True False) (n_malloc state_armed)
   \<and> \<not> open_ok (env_fixed 2600 True False) (n_open state_armed)
   \<and> events_since state_armed (recordAndAlert (env_fixed 2600 True False) 552 state_armed) =
        Enter 552 # Malloc True #
          capture_events (env_fixed 2600 True False) (word_of_nat (now_us state_armed))
            (n_adc state_armed) TOTAL_SAMPLES @
          [FileOpen False, Free, Return]
   \<and> Publish 552 \<in>
        set (events_since state_armed (recordAndAlert (env_fixed 2600 True True) 552 state_armed))
   \<and> (\<exists>pre buf.
        events_since state_armed (recordAndAlert (env_fixed 2600 True True) 552 state_armed) =
          pre @ [FileWrite buf, FileClose, Free, Publish 552, Return])"
proof -
  have h1: "malloc_ok (env_fixed 2600 True False) (n_malloc state_armed)"
    and h2: "\<not> open_ok (env_fixed 2600 True False) (n_open state_armed)"
    by (simp_all add: env_fixed_def)
  have h3: "Publish 552 \<in>
      set (events_since state_armed (recordAndAlert (env_fixed 2600 True True) 552 state_armed))"
    by (simp add: events_since_record record_events_def handoff_events_def env_fixed_def)
  from open_failure_no_alert [where e = "env_fixed 2600 True False" and s = state_armed and a = 552] h1 h2
  have c1: "events_since state_armed (recordAndAlert (env_fixed 2600 True False) 552 state_armed) =
        Enter 552 # Malloc True #
          capture_events (env_fixed 2600 True False) (word_of_nat (now_us state_armed))
            (n_adc state_armed) TOTAL_SAMPLES @
          [FileOpen False, Free, Return]"
    by blast
  from open_failure_no_alert [where e = "env_fixed 2600 True True" and s = state_armed and a = 552] h3
  have c2: "\<exists>pre buf.
        events_since state_armed (recordAndAlert (env_fixed 2600 True True) 552 state_armed) =
          pre @ [FileWrite buf, FileClose, Free, Publish 552, Return]"
    by blast
  from h1 h2 c1 h3 c2 show ?thesis by blast
qed

section \<open>The captured buffer\<close>

text \<open>
  C2: whenever the allocation succeeds the capture returns, with a buffer of exactly
  \<open>SAMPLE_RATE * RECORD_DURATION_SECONDS\<close> = 24000 elements. The loop runs the full
  count: it waits for 24000 deadlines and reads 24000 conversions, and it fills every
  cell: cell i holds the scaled i-th conversion of the capture and nothing of what the
  fresh block held, so two environments that differ only in the content of fresh blocks
  capture the same buffer. Neither the length nor the content depends on the trigger
  amplitude: for every amplitude passed to \<open>recordAndAlert\<close>, the buffer it writes to the
  opened file is that same filled buffer of 24000 elements.
\<close>

theorem capture_full_buffer:
  assumes "malloc_ok e (n_malloc s)"
  shows "\<exists>buf s'. capture e s = (Some buf, s')
    \<and> length buf = SAMPLE_RATE * RECORD_DURATION_SECONDS
    \<and> length buf = 24000
    \<and> length (capture_reads (events_since s s')) = 24000
    \<and> length (deadlines (events_since s s')) = 24000
    \<and> (\<forall>a. open_ok e (n_open s) \<longrightarrow>
          FileWrite buf \<in> set (events_since s (recordAndAlert e a s)))
    \<and> buf = captured e s
    \<and> (\<forall>i. i < TOTAL_SAMPLES \<longrightarrow>
          buf ! i = scaled_sample (capture_reads (events_since s s') ! i) (adc_dc_offset s)
          \<and> capture_reads (events_since s s') ! i = adc_raw e (n_adc s + i))
    \<and> (\<forall>junk. fst (capture (e\<lparr>heap_junk := junk\<rparr>) s) = Some buf)
    \<and> (\<forall>a b. open_ok e (n_open s) \<longrightarrow>
          FileWrite b \<in> set (events_since s (recordAndAlert e a s)) \<longrightarrow> b = buf)"
proof -
  let ?s' = "snd (capture e s)"
  let ?rs = "capture_reads (events_since s ?s')"
  have c: "capture e s = (Some (captured e s), ?s')"
    by (rule capture_ok_pair [OF assms])
  have l: "length (captured e s) = SAMPLE_RATE * RECORD_DURATION_SECONDS"
    "length (captured e s) = 24000"
    using length_captured [of e s] by (simp_all add: TOTAL_SAMPLES_def TOTAL_SAMPLES_eq [symmetric])
  have rs: "?rs = map (\<lambda>k. adc_raw e (n_adc s + k)) [0..<TOTAL_SAMPLES]"
    by (simp add: capture_ok_events [OF assms] capture_reads_capture_events)
  have r: "length ?rs = 24000"
    and d: "length (deadlines (events_since s ?s')) = 24000"
    by (simp_all add: capture_ok_events [OF assms] capture_reads_capture_events
        deadlines_capture_events TOTAL_SAMPLES_eq)
  have w: "\<forall>a. open_ok e (n_open s) \<longrightarrow>
      FileWrite (captured e s) \<in> set (events_since s (recordAndAlert e a s))"
    using assms by (simp add: events_since_record record_events_def handoff_events_def)
  have cells: "\<forall>i. i < TOTAL_SAMPLES \<longrightarrow>
      captured e s ! i = scaled_sample (?rs ! i) (adc_dc_offset s)
      \<and> ?rs ! i = adc_raw e (n_adc s + i)"
    by (subst (1 2) rs) (simp add: captured_def)
  have junk: "\<forall>junk. fst (capture (e\<lparr>heap_junk := junk\<rparr>) s) = Some (captured e s)"
  proof
    fix junk
    have "fst (capture (e\<lparr>heap_junk := junk\<rparr>) s) = Some (captured (e\<lparr>heap_junk := junk\<rparr>) s)"
      using assms by (intro capture_ok_fst) simp
    then show "fst (capture (e\<lparr>heap_junk := junk\<rparr>) s) = Some (captured e s)"
      by (simp add: captured_def)
  qed
  have k: "\<And>ev b. ev \<in> set (capture_events e (word_of_nat (now_us s)) (n_adc s) TOTAL_SAMPLES)
      \<Longrightarrow> ev \<noteq> FileWrite b"
    by (auto dest: capture_events_kinds)
  have only: "\<forall>a b. open_ok e (n_open s) \<longrightarrow>
      FileWrite b \<in> set (events_since s (recordAndAlert e a s)) \<longrightarrow> b = captured e s"
    using assms k
    by (auto simp: events_since_record record_events_def handoff_events_def)
  show ?thesis
    by (intro exI [where x = "captured e s"] exI [where x = "snd (capture e s)"]
        conjI c l r d w cells junk only refl)
qed

theorem capture_full_buffer_witness:
  "malloc_ok (env_fixed 2600 True True) (n_malloc state_armed)
   \<and> open_ok (env_fixed 2600 True True) (n_open state_armed)
   \<and> (\<exists>buf s'. capture (env_fixed 2600 True True) state_armed = (Some buf, s')
        \<and> length buf = 24000
        \<and> buf ! 0 = scaled_sample 2600 2048
        \<and> buf ! 23999 = scaled_sample 2600 2048
        \<and> FileWrite buf \<in>
            set (events_since state_armed
                   (recordAndAlert (env_fixed 2600 True True) 552 state_armed)))"
proof -
  let ?e = "env_fixed 2600 True True"
  have h: "malloc_ok ?e (n_malloc state_armed)"
    and o: "open_ok ?e (n_open state_armed)"
    by (simp_all add: env_fixed_def)
  from capture_full_buffer [OF h] obtain buf s' where
    c: "capture ?e state_armed = (Some buf, s')"
    and l: "length buf = 24000"
    and w: "\<forall>a. open_ok ?e (n_open state_armed) \<longrightarrow>
          FileWrite buf \<in> set (events_since state_armed (recordAndAlert ?e a state_armed))"
    and cells: "\<forall>i. i < TOTAL_SAMPLES \<longrightarrow>
          buf ! i = scaled_sample (capture_reads (events_since state_armed s') ! i)
                      (adc_dc_offset state_armed)
          \<and> capture_reads (events_since state_armed s') ! i = adc_raw ?e (n_adc state_armed + i)"
    by blast
  have off: "adc_dc_offset state_armed = 2048"
    by (simp add: state_armed_def)
  have raw: "adc_raw ?e k = 2600" for k
    by (simp add: env_fixed_def)
  from cells have "0 < TOTAL_SAMPLES \<longrightarrow> buf ! 0 = scaled_sample 2600 2048"
    "23999 < TOTAL_SAMPLES \<longrightarrow> buf ! 23999 = scaled_sample 2600 2048"
    by (simp_all add: off raw)
  then have b: "buf ! 0 = scaled_sample 2600 2048" "buf ! 23999 = scaled_sample 2600 2048"
    by (simp_all add: TOTAL_SAMPLES_eq)
  from w o have "FileWrite buf \<in>
      set (events_since state_armed (recordAndAlert ?e 552 state_armed))"
    by blast
  with h o c l b show ?thesis by blast
qed

text \<open>
  C3: within one capture the deadline awaited before the i-th sample (counting from 0) is
  the value \<open>micros()\<close> returned at line 195 plus i sampling periods, in the 32-bit
  arithmetic of \<open>unsigned long\<close>; each deadline is the previous one plus one period,
  whatever the clock showed in between. Read as numbers the deadline is the start plus
  125 i microseconds as long as that sum stays below \<open>2 ^ 32\<close>. The period is
  \<open>round(1000000 / SAMPLE_RATE)\<close> = 125.
\<close>

theorem deadline_schedule:
  assumes "malloc_ok e (n_malloc s)"
  shows "deadlines (events_since s (snd (capture e s))) =
      map (\<lambda>i. fst (micros (snd (malloc_buffer e s))) + of_nat i * SAMPLING_PERIOD_US)
        [0..<TOTAL_SAMPLES]
    \<and> (\<forall>i. Suc i < TOTAL_SAMPLES \<longrightarrow>
          deadlines (events_since s (snd (capture e s))) ! Suc i =
          deadlines (events_since s (snd (capture e s))) ! i + SAMPLING_PERIOD_US)
    \<and> (\<forall>i. i < TOTAL_SAMPLES \<and>
            unat (fst (micros (snd (malloc_buffer e s)))) + i * 125 < 2 ^ 32 \<longrightarrow>
          unat (deadlines (events_since s (snd (capture e s))) ! i) =
          unat (fst (micros (snd (malloc_buffer e s)))) + i * 125)
    \<and> sint SAMPLING_PERIOD_US = c_round (1000000 / real SAMPLE_RATE)
    \<and> SAMPLING_PERIOD_US = 125"
proof -
  let ?t = "fst (micros (snd (malloc_buffer e s)))"
  let ?ds = "deadlines (events_since s (snd (capture e s)))"
  have t: "?t = word_of_nat (now_us s)"
    by (simp add: micros_def malloc_buffer_def emit_def Let_def)
  have ds: "?ds = map (\<lambda>i. ?t + of_nat i * SAMPLING_PERIOD_US) [0..<TOTAL_SAMPLES]"
    unfolding t by (simp add: capture_ok_events [OF assms] deadlines_capture_events)
  have nth: "?ds ! i = ?t + of_nat i * SAMPLING_PERIOD_US" if "i < TOTAL_SAMPLES" for i
    using that by (subst ds) simp
  have step: "\<forall>i. Suc i < TOTAL_SAMPLES \<longrightarrow> ?ds ! Suc i = ?ds ! i + SAMPLING_PERIOD_US"
    by (simp add: nth algebra_simps)
  have num: "\<forall>i. i < TOTAL_SAMPLES \<and> unat ?t + i * 125 < 2 ^ 32 \<longrightarrow>
      unat (?ds ! i) = unat ?t + i * 125"
    by (simp add: nth SAMPLING_PERIOD_US_eq unat_deadline)
  have p: "sint SAMPLING_PERIOD_US = c_round (1000000 / real SAMPLE_RATE)"
    by (simp add: SAMPLING_PERIOD_US_eq c_round_def SAMPLE_RATE_def)
  from ds step num p SAMPLING_PERIOD_US_eq show ?thesis by blast
qed

theorem deadline_schedule_witness:
  "malloc_ok (env_fixed 2600 True True) (n_malloc state_armed)
   \<and> fst (micros (snd (malloc_buffer (env_fixed 2600 True True) state_armed))) = 3024000
   \<and> deadlines (events_since state_armed (snd (capture (env_fixed 2600 True True) state_armed)))
       ! 0 = 3024000
   \<and> deadlines (events_since state_armed (snd (capture (env_fixed 2600 True True) state_armed)))
       ! 1 = 3024125
   \<and> unat (deadlines
        (events_since state_armed (snd (capture (env_fixed 2600 True True) state_armed))) ! 2)
       = 3024250"
proof -
  let ?e = "env_fixed 2600 True True"
  let ?ds = "deadlines (events_since state_armed (snd (capture ?e state_armed)))"
  have h: "malloc_ok ?e (n_malloc state_armed)"
    by (simp add: env_fixed_def)
  have t: "fst (micros (snd (malloc_buffer ?e state_armed))) = 3024000"
    by (simp add: micros_def malloc_buffer_def emit_def Let_def state_armed_def)
  note d = deadline_schedule [OF h, unfolded t]
  from d have ds: "?ds = map (\<lambda>i. 3024000 + of_nat i * SAMPLING_PERIOD_US) [0..<TOTAL_SAMPLES]"
    by blast
  have d0: "?ds ! 0 = 3024000"
    by (subst ds) (simp add: TOTAL_SAMPLES_eq)
  from d have "Suc 0 < TOTAL_SAMPLES \<longrightarrow> ?ds ! Suc 0 = ?ds ! 0 + SAMPLING_PERIOD_US"
    by blast
  then have d1: "?ds ! 1 = 3024125"
    by (simp add: TOTAL_SAMPLES_eq d0 SAMPLING_PERIOD_US_eq)
  from d have "2 < TOTAL_SAMPLES \<and> unat (3024000 :: uint32) + 2 * 125 < 2 ^ 32 \<longrightarrow>
      unat (?ds ! 2) = unat (3024000 :: uint32) + 2 * 125"
    by blast
  then have d2: "unat (?ds ! 2) = 3024250"
    by (simp add: TOTAL_SAMPLES_eq)
  from h t d0 d1 d2 show ?thesis by blast
qed

text \<open>
  C4: the raw samples read during a capture are the next 24000 conversions, and the
  element stored for each is \<open>(raw - adc_dc_offset) * GAIN_FACTOR\<close> reduced to a signed
  16-bit value modulo \<open>2 ^ 16\<close>; when the product lies between -32768 and 32767 the stored
  value is the product itself, \<open>(raw - adc_dc_offset) * 8\<close>.
\<close>

theorem stored_sample_scaled:
  assumes "malloc_ok e (n_malloc s)"
  shows "\<exists>buf s'. capture e s = (Some buf, s')
    \<and> length buf = TOTAL_SAMPLES
    \<and> capture_reads (events_since s s') = map (\<lambda>k. adc_raw e (n_adc s + k)) [0..<TOTAL_SAMPLES]
    \<and> sint GAIN_FACTOR = 8
    \<and> (\<forall>i. i < TOTAL_SAMPLES \<longrightarrow>
          sint (buf ! i) =
            ((sint (capture_reads (events_since s s') ! i) - sint (adc_dc_offset s))
               * sint GAIN_FACTOR + 32768) mod 65536 - 32768
          \<and> (- 32768 \<le> (sint (capture_reads (events_since s s') ! i) - sint (adc_dc_offset s))
                          * sint GAIN_FACTOR
              \<and> (sint (capture_reads (events_since s s') ! i) - sint (adc_dc_offset s))
                          * sint GAIN_FACTOR \<le> 32767 \<longrightarrow>
              sint (buf ! i) =
                (sint (capture_reads (events_since s s') ! i) - sint (adc_dc_offset s)) * 8))"
proof -
  let ?s' = "snd (capture e s)"
  let ?rs = "capture_reads (events_since s ?s')"
  have c: "capture e s = (Some (captured e s), ?s')"
    by (rule capture_ok_pair [OF assms])
  have rs: "?rs = map (\<lambda>k. adc_raw e (n_adc s + k)) [0..<TOTAL_SAMPLES]"
    by (simp add: capture_ok_events [OF assms] capture_reads_capture_events)
  have g: "sint GAIN_FACTOR = 8"
    by (simp add: GAIN_FACTOR_def)
  have el: "sint (captured e s ! i) = signed_take_bit 15 ((sint (?rs ! i) - sint (adc_dc_offset s)) * 8)"
    if "i < TOTAL_SAMPLES" for i
    using that by (subst rs) (simp add: captured_def sint_scaled_sample)
  have main: "\<forall>i. i < TOTAL_SAMPLES \<longrightarrow>
          sint (captured e s ! i) =
            ((sint (?rs ! i) - sint (adc_dc_offset s)) * sint GAIN_FACTOR + 32768) mod 65536 - 32768
          \<and> (- 32768 \<le> (sint (?rs ! i) - sint (adc_dc_offset s)) * sint GAIN_FACTOR
              \<and> (sint (?rs ! i) - sint (adc_dc_offset s)) * sint GAIN_FACTOR \<le> 32767 \<longrightarrow>
              sint (captured e s ! i) = (sint (?rs ! i) - sint (adc_dc_offset s)) * 8)"
  proof (intro allI impI conjI)
    fix i assume i: "i < TOTAL_SAMPLES"
    show "sint (captured e s ! i) =
        ((sint (?rs ! i) - sint (adc_dc_offset s)) * sint GAIN_FACTOR + 32768) mod 65536 - 32768"
      unfolding g el [OF i] by (rule wrap16)
    assume "- 32768 \<le> (sint (?rs ! i) - sint (adc_dc_offset s)) * sint GAIN_FACTOR
      \<and> (sint (?rs ! i) - sint (adc_dc_offset s)) * sint GAIN_FACTOR \<le> 32767"
    then have "signed_take_bit 15 ((sint (?rs ! i) - sint (adc_dc_offset s)) * 8)
        = (sint (?rs ! i) - sint (adc_dc_offset s)) * 8"
      unfolding g by (intro signed_take_bit_int_eq_self) simp_all
    then show "sint (captured e s ! i) = (sint (?rs ! i) - sint (adc_dc_offset s)) * 8"
      by (simp only: el [OF i])
  qed
  from c length_captured [of e s] rs g main show ?thesis by blast
qed

theorem stored_sample_scaled_witness:
  "malloc_ok (env_fixed 2600 True True) (n_malloc state_armed)
   \<and> (\<exists>buf s'. capture (env_fixed 2600 True True) state_armed = (Some buf, s')
        \<and> capture_reads (events_since state_armed s') ! 0 = 2600
        \<and> sint (buf ! 0) = 4416)"
proof -
  let ?e = "env_fixed 2600 True True"
  have h: "malloc_ok ?e (n_malloc state_armed)"
    by (simp add: env_fixed_def)
  from stored_sample_scaled [OF h] obtain buf s' where
    c: "capture ?e state_armed = (Some buf, s')"
    and rs: "capture_reads (events_since state_armed s') =
      map (\<lambda>k. adc_raw ?e (n_adc state_armed + k)) [0..<TOTAL_SAMPLES]"
    and g: "sint GAIN_FACTOR = 8"
    and el: "\<forall>i. i < TOTAL_SAMPLES \<longrightarrow>
          sint (buf ! i) =
            ((sint (capture_reads (events_since state_armed s') ! i)
                - sint (adc_dc_offset state_armed)) * sint GAIN_FACTOR + 32768) mod 65536 - 32768
          \<and> (- 32768 \<le> (sint (capture_reads (events_since state_armed s') ! i)
                          - sint (adc_dc_offset state_armed)) * sint GAIN_FACTOR
              \<and> (sint (capture_reads (events_since state_armed s') ! i)
                    - sint (adc_dc_offset state_armed)) * sint GAIN_FACTOR \<le> 32767 \<longrightarrow>
              sint (buf ! i) =
                (sint (capture_reads (events_since state_armed s') ! i)
                   - sint (adc_dc_offset state_armed)) * 8)"
    by blast
  have r0: "capture_reads (events_since state_armed s') ! 0 = 2600"
    by (subst rs) (simp add: TOTAL_SAMPLES_eq env_fixed_def)
  have off: "sint (adc_dc_offset state_armed) = 2048"
    by (simp add: state_armed_def)
  from el have "0 < TOTAL_SAMPLES \<longrightarrow>
      (- 32768 \<le> (sint (capture_reads (events_since state_armed s') ! 0)
                          - sint (adc_dc_offset state_armed)) * sint GAIN_FACTOR
              \<and> (sint (capture_reads (events_since state_armed s') ! 0)
                    - sint (adc_dc_offset state_armed)) * sint GAIN_FACTOR \<le> 32767 \<longrightarrow>
              sint (buf ! 0) =
                (sint (capture_reads (events_since state_armed s') ! 0)
                   - sint (adc_dc_offset state_armed)) * 8)"
    by blast
  then have "sint (buf ! 0) = 4416"
    unfolding r0 off g by (simp add: TOTAL_SAMPLES_eq)
  with h c r0 show ?thesis by blast
qed

end
